theory Spec2Isabelle
  imports Main "HOL-Library.Multiset" "HOL-Library.Sublist" "HOL-Library.AList"
begin

text \<open>
  A shallow embedding of \<^verbatim>\<open>scripts/lib/publishing.ts\<close>: the dependency-ordered publication
  of the packages of a monorepo. The first section translates the functions of the source,
  the following sections define what the properties need, and the last one proves them.
\<close>

section \<open>The model of the source\<close>

subsection \<open>Package registry and topological sort\<close>

text \<open>
  A \<^verbatim>\<open>PackageDetails\<close> object (lines 27-32) is a record with the four fields of the
  TypeScript type. The registry \<^verbatim>\<open>Record<string, PackageDetails>\<close> is an association list
  in the iteration order of \<^verbatim>\<open>Object.keys\<close>; a JavaScript object has each key once, which
  the theorems assume as \<open>distinct (Object_keys packages)\<close>. The lookup
  \<^verbatim>\<open>packages[packageName]\<close> is \<open>map_of\<close>: package names are taken not to be names of
  properties that every object inherits (the names that \<^verbatim>\<open>getPackageDetails\<close> collects start
  with \<^verbatim>\<open>@tldraw\<close>), and a package object is always truthy, so \<^verbatim>\<open>!packageDetails\<close> is exactly
  the missing key. A thrown \<^verbatim>\<open>Error\<close> is the left injection of a sum and carries the message.
  \<open>join\<close> is \<^verbatim>\<open>Array.prototype.join\<close>.
\<close>

record PackageDetails =
  name :: string
  dir :: string
  localDeps :: "string list"
  version :: string

type_synonym registry = "(string \<times> PackageDetails) list"

datatype error = Error string

fun join :: "string \<Rightarrow> string list \<Rightarrow> string" where
  "join sep [] = []"
| "join sep [x] = x"
| "join sep (x # y # ys) = x @ sep @ join sep (y # ys)"

record sort_state =
  sorted :: "PackageDetails list"
  visited :: "string set"

definition Object_keys :: "registry \<Rightarrow> string list" where
  "Object_keys packages = map fst packages"

text \<open>
  \<^verbatim>\<open>topologicalSortPackages\<close> (lines 106-126). The closure variables \<^verbatim>\<open>sorted\<close> and \<^verbatim>\<open>visited\<close>
  are the state \<open>sort_state\<close>, passed to and returned by \<open>visit\<close>. The callback loop
  \<^verbatim>\<open>xs.forEach((dep) => visit(dep, [...path, dep]))\<close> is \<open>visit_each packages path xs\<close>; the
  loop over \<^verbatim>\<open>Object.keys(packages)\<close>, which calls \<^verbatim>\<open>visit(packageName, [packageName])\<close>, is
  the same function with the empty path. An exception ends every enclosing loop, so the
  state at the \<^verbatim>\<open>throw\<close> is not returned.
\<close>

function visit :: "registry \<Rightarrow> string \<Rightarrow> string list \<Rightarrow> sort_state \<Rightarrow> error + sort_state"
  and visit_each :: "registry \<Rightarrow> string list \<Rightarrow> string list \<Rightarrow> sort_state \<Rightarrow> error + sort_state"
where
  "visit packages packageName path s =
     (if packageName \<in> visited s then Inr s
      else
        let s1 = s\<lparr>visited := insert packageName (visited s)\<rparr> in
        case map_of packages packageName of
          None \<Rightarrow>
            Inl (Error (''Could not find package '' @ packageName @ ''. path: '' @ join '' -> '' path))
        | Some packageDetails \<Rightarrow>
            (case visit_each packages path (localDeps packageDetails) s1 of
               Inl e \<Rightarrow> Inl e
             | Inr s2 \<Rightarrow> Inr (s2\<lparr>sorted := sorted s2 @ [packageDetails]\<rparr>)))"
| "visit_each packages path [] s = Inr s"
| "visit_each packages path (dep # deps) s =
     (case visit packages dep (path @ [dep]) s of
        Inl e \<Rightarrow> Inl e
      | Inr s' \<Rightarrow> visit_each packages path deps s')"
  by pat_completeness auto

text \<open>
  \<open>visit\<close> calls itself on a state that an earlier call returned, so its termination needs a
  fact about its result first: a call never removes a name from \<^verbatim>\<open>visited\<close>. With it, the
  number of registry keys not yet visited decreases at every call that goes on.
\<close>

lemma in_keysI: "(k, p) \<in> set packages \<Longrightarrow> k \<in> set (Object_keys packages)"
  unfolding Object_keys_def by (simp add: rev_image_eqI)

definition unvisited :: "registry \<Rightarrow> sort_state \<Rightarrow> nat" where
  "unvisited packages s = card (set (Object_keys packages) - visited s)"

lemma visited_mono_dom:
  "visit_visit_each_dom (Inl (packages, packageName, path, s)) \<Longrightarrow>
     visit packages packageName path s = Inr s' \<Longrightarrow> visited s \<subseteq> visited s'"
  "visit_visit_each_dom (Inr (packages, path, deps, s)) \<Longrightarrow>
     visit_each packages path deps s = Inr s'' \<Longrightarrow> visited s \<subseteq> visited s''"
proof (induction packages packageName path s and packages path deps s arbitrary: s' and s''
    rule: visit_visit_each.pinduct)
  case (1 packages packageName path s)
  show ?case
  proof (cases "packageName \<in> visited s")
    case True
    with 1(1,3) show ?thesis by (simp add: visit.psimps)
  next
    case False
    let ?s1 = "s\<lparr>visited := insert packageName (visited s)\<rparr>"
    from False 1(1,3) obtain pd s2 where
      pd: "map_of packages packageName = Some pd" and
      s2: "visit_each packages path (localDeps pd) ?s1 = Inr s2" and
      s': "s' = s2\<lparr>sorted := sorted s2 @ [pd]\<rparr>"
      by (auto simp: visit.psimps Let_def split: option.splits sum.splits)
    from 1(2)[OF False refl pd s2] have "visited ?s1 \<subseteq> visited s2" .
    with s' show ?thesis by auto
  qed
next
  case (2 packages path s)
  then show ?case by (simp add: visit_each.psimps)
next
  case (3 packages path dep deps s)
  from 3(1,4) obtain b where
    b: "visit packages dep (path @ [dep]) s = Inr b" and
    r: "visit_each packages path deps b = Inr s''"
    by (auto simp: visit_each.psimps split: sum.splits)
  from 3(2)[OF b] 3(3)[OF b r] show ?case by blast
qed

termination visit
proof (relation "measures [\<lambda>x. case x of Inl (packages, n, p, s) \<Rightarrow> unvisited packages s
                                   | Inr (packages, p, deps, s) \<Rightarrow> unvisited packages s,
                          \<lambda>x. case x of Inl _ \<Rightarrow> 0 | Inr (packages, p, deps, s) \<Rightarrow> Suc (length deps)]",
    goal_cases)
  case 1
  then show ?case by simp
next
  case (2 packages packageName path s s1 packageDetails)
  from \<open>map_of packages packageName = Some packageDetails\<close>
  have "(packageName, packageDetails) \<in> set packages"
    by (rule map_of_SomeD)
  then have "packageName \<in> set (Object_keys packages)"
    by (rule in_keysI)
  with \<open>packageName \<notin> visited s\<close>
  have "set (Object_keys packages) - insert packageName (visited s) \<subset> set (Object_keys packages) - visited s"
    by blast
  then have "unvisited packages s1 < unvisited packages s"
    unfolding unvisited_def \<open>s1 = _\<close> by (simp add: psubset_card_mono)
  then show ?case by simp
next
  case (3 packages path dep deps s)
  then show ?case by simp
next
  case (4 packages path dep deps s b)
  then have "visited s \<subseteq> visited b"
    using visited_mono_dom(1) by blast
  then have "set (Object_keys packages) - visited b \<subseteq> set (Object_keys packages) - visited s"
    by blast
  then have "unvisited packages b \<le> unvisited packages s"
    by (simp add: unvisited_def card_mono)
  then show ?case by auto
qed

definition topologicalSortPackages :: "registry \<Rightarrow> error + PackageDetails list" where
  "topologicalSortPackages packages =
     (case visit_each packages [] (Object_keys packages) \<lparr>sorted = [], visited = {}\<rparr> of
        Inl e \<Rightarrow> Inl e
      | Inr s \<Rightarrow> Inr (sorted s))"

subsection \<open>The retry engine\<close>

text \<open>
  \<^verbatim>\<open>retry(fn, opts)\<close> (lines 287-310) builds a promise around the inner function
  \<^verbatim>\<open>attempt\<close>, here \<open>retry_attempt\<close>, which carries the counter \<^verbatim>\<open>attempts\<close>. The operation
  \<^verbatim>\<open>fn\<close> is an asynchronous, effectful function: it takes the argument object and the state
  \<open>'w\<close> of whatever it acts on, and returns how its promise settles (\<open>Inr\<close> resolved, \<open>Inl\<close>
  rejected with a value) together with the new state; an operation whose promise never
  settles is outside the model. JavaScript numbers are modelled as integers. The result of
  \<open>retry\<close> is how its promise settles, the final state, and the trace of what the loop did:
  each invocation of \<^verbatim>\<open>fn\<close> with its arguments and outcome, and each
  \<^verbatim>\<open>setTimeout(attempt, opts.delay)\<close>. The counter grows by one at every pass and the loop
  goes on only while it is below \<^verbatim>\<open>opts.numAttempts\<close>, which is the termination argument.
\<close>

record retry_args =
  attempt :: int
  remaining :: int
  total :: int

record retry_opts =
  numAttempts :: int
  delay :: int

datatype 'e retry_event = Invoked retry_args "'e + unit" | SetTimeout int

type_synonym ('e, 'w) operation = "retry_args \<Rightarrow> 'w \<Rightarrow> ('e + unit) \<times> 'w"

function retry_attempt ::
  "('e, 'w) operation \<Rightarrow> retry_opts \<Rightarrow> int \<Rightarrow> 'w \<Rightarrow> ('e + unit) \<times> 'w \<times> 'e retry_event list"
where
  "retry_attempt fn opts attempts w =
     (let args = \<lparr>attempt = attempts, remaining = numAttempts opts - attempts,
                   total = numAttempts opts\<rparr> in
      case fn args w of
        (Inr u, w') \<Rightarrow> (Inr u, w', [Invoked args (Inr u)])
      | (Inl err, w') \<Rightarrow>
          (let attempts' = attempts + 1 in
           if attempts' \<ge> numAttempts opts then (Inl err, w', [Invoked args (Inl err)])
           else
             (case retry_attempt fn opts attempts' w' of
                (r, w'', evs) \<Rightarrow>
                  (r, w'', Invoked args (Inl err) # SetTimeout (delay opts) # evs))))"
  by pat_completeness auto

termination retry_attempt
  by (relation "measure (\<lambda>(fn, opts, attempts, w). nat (numAttempts opts - attempts))") auto

declare retry_attempt.simps [simp del]

definition retry ::
  "('e, 'w) operation \<Rightarrow> retry_opts \<Rightarrow> 'w \<Rightarrow> ('e + unit) \<times> 'w \<times> 'e retry_event list"
where
  "retry fn opts w = retry_attempt fn opts 0 w"

subsection \<open>The publish sequencer\<close>

text \<open>
  \<^verbatim>\<open>publish()\<close> (lines 128-285). The string functions of JavaScript that it uses:
  \<open>string_includes\<close> is \<^verbatim>\<open>String.prototype.includes\<close>, \<open>replace_first\<close> is
  \<^verbatim>\<open>String.prototype.replace\<close> with a string pattern (the first occurrence only), and
  \<open>number_to_string\<close> is the decimal rendering of an integer in a template literal.
\<close>

fun starts_with :: "string \<Rightarrow> string \<Rightarrow> bool" where
  "starts_with s [] = True"
| "starts_with [] (p # ps) = False"
| "starts_with (c # cs) (p # ps) = (c = p \<and> starts_with cs ps)"

fun string_includes :: "string \<Rightarrow> string \<Rightarrow> bool" where
  "string_includes [] needle = (needle = [])"
| "string_includes (c # cs) needle = (starts_with (c # cs) needle \<or> string_includes cs needle)"

fun replace_first :: "string \<Rightarrow> string \<Rightarrow> string \<Rightarrow> string" where
  "replace_first pattern replacement [] = (if pattern = [] then replacement else [])"
| "replace_first pattern replacement (c # cs) =
     (if starts_with (c # cs) pattern then replacement @ drop (length pattern) (c # cs)
      else c # replace_first pattern replacement cs)"

definition digit_char :: "nat \<Rightarrow> char" where
  "digit_char d = ''0123456789'' ! d"

fun decimal_digits :: "nat \<Rightarrow> string \<Rightarrow> string" where
  "decimal_digits n acc =
     (if n < 10 then digit_char n # acc
      else decimal_digits (n div 10) (digit_char (n mod 10) # acc))"

definition number_to_string :: "int \<Rightarrow> string" where
  "number_to_string i =
     (if 0 \<le> i then decimal_digits (nat i) [] else CHR ''-'' # decimal_digits (nat (- i)) [])"

text \<open>
  Everything \<^verbatim>\<open>publish()\<close> does is an action on the outside: a command run with
  \<^verbatim>\<open>execSync\<close> or with \<^verbatim>\<open>exec\<close> (command, arguments and working directory), a \<^verbatim>\<open>HEAD\<close>
  request with \<^verbatim>\<open>fetch\<close>, or the call of \<^verbatim>\<open>copyRecursiveSync\<close> on the working directory. The
  state of the world is the history of the actions performed so far, and the environment
  answers each action as a function of that history and of the action: whether it fails
  (and with which error), the lines it prints on standard output and standard error, and,
  for a request, the status of the response. This covers every deterministic behaviour of
  the registry, the network and the commands. \<^verbatim>\<open>exec\<close> is imported from \<^verbatim>\<open>./exec\<close>, which is
  not part of this file: it is taken to hand each output line to the callback of its stream
  and to reject when the command fails. The version parser of \<^verbatim>\<open>semver\<close> is the parameter
  \<open>prerelease\<close> (the first prerelease component of a version, if any), and the registry
  that \<^verbatim>\<open>getAllPackageDetails\<close> reads from the manifests is an argument. Output written with
  \<^verbatim>\<open>nicelog\<close> is not modelled.
\<close>

datatype action =
    ExecSync string
  | Exec string "string list" "string option"
  | Fetch string
  | CopyRecursiveSync string string

type_synonym world = "action list"

datatype output_line = StdoutLine string | StderrLine string

fun line_text :: "output_line \<Rightarrow> string" where
  "line_text (StdoutLine line) = line"
| "line_text (StderrLine line) = line"

record response =
  failure :: "error option"
  output_lines :: "output_line list"
  status :: int

record env =
  respond :: "world \<Rightarrow> action \<Rightarrow> response"
  prerelease :: "string \<Rightarrow> string option"

definition perform :: "env \<Rightarrow> action \<Rightarrow> world \<Rightarrow> response \<times> world" where
  "perform env a w = (respond env w a, w @ [a])"

text \<open>
  The two operations handed to \<^verbatim>\<open>retry\<close>: the registry publication (lines 148-187), whose
  two line callbacks both append the line and a newline to \<^verbatim>\<open>output\<close>, and the availability
  check (lines 189-209).
\<close>

definition publish_command :: "PackageDetails \<Rightarrow> string \<Rightarrow> action" where
  "publish_command packageDetails prereleaseTag =
     Exec ''yarn''
       [''npm'', ''publish'', ''--tag'', prereleaseTag, ''--tolerate-republish'', ''--access'',
        ''public'']
       (Some (dir packageDetails))"

definition captured_output :: "output_line list \<Rightarrow> string" where
  "captured_output lines = concat (map (\<lambda>line. line_text line @ ''\<newline>'') lines)"

definition publish_operation ::
  "env \<Rightarrow> PackageDetails \<Rightarrow> string \<Rightarrow> (error, world) operation"
where
  "publish_operation env packageDetails prereleaseTag args w =
     (case perform env (publish_command packageDetails prereleaseTag) w of
        (res, w') \<Rightarrow>
          (let output = captured_output (output_lines res) in
           case failure res of
             None \<Rightarrow> (Inr (), w')
           | Some e \<Rightarrow>
               if string_includes output
                    ''You cannot publish over the previously published versions''
               then (Inr (), w')
               else (Inl e, w')))"

definition unscopedName :: "PackageDetails \<Rightarrow> string" where
  "unscopedName packageDetails = replace_first ''@tldraw/'' [] (name packageDetails)"

definition package_url :: "PackageDetails \<Rightarrow> string" where
  "package_url packageDetails =
     ''http://127.0.0.1:4873/@tldraw/'' @ unscopedName packageDetails @ ''/-/'' @
       unscopedName packageDetails @ ''-'' @ version packageDetails @ ''.tgz''"

definition availability_operation :: "env \<Rightarrow> PackageDetails \<Rightarrow> (error, world) operation" where
  "availability_operation env packageDetails args w =
     (case perform env (Fetch (package_url packageDetails)) w of
        (res, w') \<Rightarrow>
          (case failure res of
             Some e \<Rightarrow> (Inl e, w')
           | None \<Rightarrow>
               if status res \<ge> 400
               then (Inl (Error (''Package not found: '' @ number_to_string (status res))), w')
               else (Inr (), w')))"

definition publish_step ::
  "env \<Rightarrow> PackageDetails \<Rightarrow> string \<Rightarrow> world \<Rightarrow> (error + unit) \<times> world \<times> error retry_event list"
where
  "publish_step env packageDetails prereleaseTag w =
     retry (publish_operation env packageDetails prereleaseTag)
       \<lparr>numAttempts = 5, delay = 10000\<rparr> w"

definition confirm_step ::
  "env \<Rightarrow> PackageDetails \<Rightarrow> world \<Rightarrow> (error + unit) \<times> world \<times> error retry_event list"
where
  "confirm_step env packageDetails w =
     retry (availability_operation env packageDetails) \<lparr>numAttempts = 10, delay = 3000\<rparr> w"

text \<open>
  The statements after the two retries (lines 211-283) are a straight line of awaited
  calls: \<open>Await a\<close> is a call whose exception leaves \<^verbatim>\<open>publish()\<close>, \<open>TryIgnore a\<close> is a call
  inside \<^verbatim>\<open>try { ... } catch { /* ignore */ }\<close>. \<open>publish_package\<close> is the body of the loop
  over \<^verbatim>\<open>publishOrder\<close>, \<open>publish_loop\<close> the loop, and \<open>publish\<close> the whole function.
\<close>

datatype step = Await action | TryIgnore action

fun run_steps :: "env \<Rightarrow> step list \<Rightarrow> world \<Rightarrow> (error + unit) \<times> world" where
  "run_steps env [] w = (Inr (), w)"
| "run_steps env (Await a # rest) w =
     (case perform env a w of
        (res, w') \<Rightarrow>
          (case failure res of
             Some e \<Rightarrow> (Inl e, w')
           | None \<Rightarrow> run_steps env rest w'))"
| "run_steps env (TryIgnore a # rest) w =
     (case perform env a w of (res, w') \<Rightarrow> run_steps env rest w')"

definition tarball :: "PackageDetails \<Rightarrow> string" where
  "tarball packageDetails = unscopedName packageDetails @ ''-'' @ version packageDetails @ ''.tgz''"

definition branch :: "PackageDetails \<Rightarrow> string" where
  "branch packageDetails = unscopedName packageDetails @ ''-'' @ version packageDetails"

definition transplant_steps :: "PackageDetails \<Rightarrow> step list" where
  "transplant_steps packageDetails =
     [TryIgnore (Exec ''rm'' [''-rf'', ''tldraw-assets''] None),
      TryIgnore (Exec ''rm'' [''-rf'', ''./package''] None),
      Await (Exec ''curl'' [''-O'', package_url packageDetails] None),
      Await (Exec ''git'' [''clone'', ''https://github.com/superwall-me/tldraw-assets.git''] None),
      Await (Exec ''tar'' [''-xzf'', tarball packageDetails, ''-C'', ''./''] None),
      Await (CopyRecursiveSync ''./package/'' ''./tldraw-assets'')]"

definition downstream_steps :: "PackageDetails \<Rightarrow> step list" where
  "downstream_steps packageDetails =
     [Await (Exec ''git'' [''checkout'', ''-b'', branch packageDetails] (Some ''./tldraw-assets'')),
      Await (Exec ''git'' [''add'', ''.''] (Some ''./tldraw-assets'')),
      Await (Exec ''git''
        [''commit'', ''-m'',
         ''Publish '' @ unscopedName packageDetails @ ''@'' @ version packageDetails]
        (Some ''./tldraw-assets'')),
      Await (Exec ''git'' [''push'', ''-f'', ''-u'', ''origin'', branch packageDetails]
        (Some ''./tldraw-assets''))]"

definition cleanup_actions :: "PackageDetails \<Rightarrow> action list" where
  "cleanup_actions packageDetails =
     [Exec ''rm'' [''-rf'', tarball packageDetails] None,
      Exec ''rm'' [''-rf'', ''tldraw-assets''] None,
      Exec ''rm'' [''-rf'', ''./package''] None]"

definition cleanup_steps :: "PackageDetails \<Rightarrow> step list" where
  "cleanup_steps packageDetails = map TryIgnore (cleanup_actions packageDetails)"

definition publish_package :: "env \<Rightarrow> PackageDetails \<Rightarrow> world \<Rightarrow> (error + unit) \<times> world" where
  "publish_package env packageDetails w =
     (let prereleaseTag =
            (case prerelease env (version packageDetails) of None \<Rightarrow> ''latest'' | Some t \<Rightarrow> t) in
      case publish_step env packageDetails prereleaseTag w of
        (Inl e, w1, evs1) \<Rightarrow> (Inl e, w1)
      | (Inr u, w1, evs1) \<Rightarrow>
          (case confirm_step env packageDetails w1 of
             (Inl e, w2, evs2) \<Rightarrow> (Inl e, w2)
           | (Inr u, w2, evs2) \<Rightarrow>
               run_steps env
                 (transplant_steps packageDetails @ downstream_steps packageDetails @
                  cleanup_steps packageDetails) w2))"

fun publish_loop :: "env \<Rightarrow> PackageDetails list \<Rightarrow> world \<Rightarrow> (error + unit) \<times> world" where
  "publish_loop env [] w = (Inr (), w)"
| "publish_loop env (packageDetails # publishOrder) w =
     (case publish_package env packageDetails w of
        (Inl e, w') \<Rightarrow> (Inl e, w')
      | (Inr u, w') \<Rightarrow> publish_loop env publishOrder w')"

definition npmToken :: string where
  "npmToken = ''sr8yMiDOGOGgbLKyquniig==''"

definition publish :: "env \<Rightarrow> registry \<Rightarrow> world \<Rightarrow> (error + unit) \<times> world" where
  "publish env packages w =
     (case run_steps env
             [Await (ExecSync (''yarn config set npmAuthToken '' @ npmToken)),
              Await (ExecSync ''yarn config set npmRegistryServer http://127.0.0.1:4873'')] w of
        (Inl e, w') \<Rightarrow> (Inl e, w')
      | (Inr u, w') \<Rightarrow>
          (case topologicalSortPackages packages of
             Inl e \<Rightarrow> (Inl e, w')
           | Inr publishOrder \<Rightarrow> publish_loop env publishOrder w'))"

subsection \<open>The recursive copy utility\<close>

text \<open>
  \<^verbatim>\<open>copyRecursiveSync\<close> (lines 11-24) works on the file system, which is a tree here: a node
  is a regular file with its contents or a directory with its named entries, in listing
  order. A path is the list of its components from the root of the tree, and
  \<^verbatim>\<open>path.join(p, childItemName)\<close> appends one component. Each \<^verbatim>\<open>fs\<close> call of the source is a
  function on the tree that returns the new tree or the error it throws:
  \<^verbatim>\<open>fs.mkdirSync(dest, { recursive: true })\<close> creates the missing directories along the path
  and fails on a regular file; \<^verbatim>\<open>fs.copyFileSync(src, dest)\<close> writes the contents of the
  source file at the destination, whose parent directory must exist and which must not be a
  directory. Symbolic links and permissions are not modelled.
\<close>

datatype node = File string | Dir "(string \<times> node) list"

type_synonym path = "string list"

datatype fs_error = ENOENT | ENOTDIR | EEXIST | EISDIR

fun fs_lookup :: "node \<Rightarrow> path \<Rightarrow> node option" where
  "fs_lookup n [] = Some n"
| "fs_lookup (File b) (c # cs) = None"
| "fs_lookup (Dir es) (c # cs) =
     (case map_of es c of None \<Rightarrow> None | Some child \<Rightarrow> fs_lookup child cs)"

definition existsSync :: "node \<Rightarrow> path \<Rightarrow> bool" where
  "existsSync fs p = (fs_lookup fs p \<noteq> None)"

definition isDirectory :: "node \<Rightarrow> path \<Rightarrow> bool" where
  "isDirectory fs p = (case fs_lookup fs p of Some (Dir es) \<Rightarrow> True | _ \<Rightarrow> False)"

fun mkdirSync :: "path \<Rightarrow> node \<Rightarrow> fs_error + node" where
  "mkdirSync [] (Dir es) = Inr (Dir es)"
| "mkdirSync [] (File b) = Inl EEXIST"
| "mkdirSync (c # cs) (File b) = Inl ENOTDIR"
| "mkdirSync (c # cs) (Dir es) =
     (case mkdirSync cs (case map_of es c of None \<Rightarrow> Dir [] | Some child \<Rightarrow> child) of
        Inl e \<Rightarrow> Inl e
      | Inr child' \<Rightarrow> Inr (Dir (AList.update c child' es)))"

definition readdirSync :: "node \<Rightarrow> path \<Rightarrow> fs_error + string list" where
  "readdirSync fs p =
     (case fs_lookup fs p of
        None \<Rightarrow> Inl ENOENT
      | Some (File b) \<Rightarrow> Inl ENOTDIR
      | Some (Dir es) \<Rightarrow> Inr (map fst es))"

fun write_file :: "path \<Rightarrow> string \<Rightarrow> node \<Rightarrow> fs_error + node" where
  "write_file [] b (File old) = Inr (File b)"
| "write_file [] b (Dir es) = Inl EISDIR"
| "write_file (c # cs) b (File old) = Inl ENOTDIR"
| "write_file (c # cs) b (Dir es) =
     (case map_of es c of
        None \<Rightarrow> if cs = [] then Inr (Dir (AList.update c (File b) es)) else Inl ENOENT
      | Some child \<Rightarrow>
          (case write_file cs b child of
             Inl e \<Rightarrow> Inl e
           | Inr child' \<Rightarrow> Inr (Dir (AList.update c child' es))))"

definition copyFileSync :: "path \<Rightarrow> path \<Rightarrow> node \<Rightarrow> fs_error + node" where
  "copyFileSync src dest fs =
     (case fs_lookup fs src of
        None \<Rightarrow> Inl ENOENT
      | Some (Dir es) \<Rightarrow> Inl EISDIR
      | Some (File b) \<Rightarrow> write_file dest b fs)"

text \<open>
  \<open>copyRecursiveSync\<close> calls itself for every entry of a directory and its recursion is not
  bounded by the source tree (the destination may lie inside the source), so the model
  takes the recursion depth allowed as its first argument: \<open>None\<close> means that the call did
  not return within that depth. \<open>forEach_child\<close> is the callback loop over
  \<^verbatim>\<open>fs.readdirSync(src)\<close>; an exception ends it.
\<close>

fun copyRecursiveSync :: "nat \<Rightarrow> path \<Rightarrow> path \<Rightarrow> node \<Rightarrow> (fs_error + node) option"
  and forEach_child :: "nat \<Rightarrow> path \<Rightarrow> path \<Rightarrow> string list \<Rightarrow> node \<Rightarrow> (fs_error + node) option"
where
  "copyRecursiveSync 0 src dest fs = None"
| "copyRecursiveSync (Suc depth) src dest fs =
     (let exists = existsSync fs src;
          isDir = exists \<and> isDirectory fs src in
      if isDir then
        (case mkdirSync dest fs of
           Inl e \<Rightarrow> Some (Inl e)
         | Inr fs1 \<Rightarrow>
             (case readdirSync fs1 src of
                Inl e \<Rightarrow> Some (Inl e)
              | Inr names \<Rightarrow> forEach_child depth src dest names fs1))
      else Some (copyFileSync src dest fs))"
| "forEach_child depth src dest [] fs = Some (Inr fs)"
| "forEach_child depth src dest (childItemName # rest) fs =
     (case copyRecursiveSync depth (src @ [childItemName]) (dest @ [childItemName]) fs of
        None \<Rightarrow> None
      | Some (Inl e) \<Rightarrow> Some (Inl e)
      | Some (Inr fs') \<Rightarrow> forEach_child depth src dest rest fs')"

section \<open>Notions used to state the properties\<close>

text \<open>
  For the registry: every \<open>localDeps\<close> name is a key (\<open>deps_resolve\<close>); the relation between a
  key and the names in its package's \<open>localDeps\<close> (\<open>depends_on\<close>); a path that starts at a key
  and follows that relation (\<open>dependency_chain\<close>); and the registry built by
  \<^verbatim>\<open>getAllPackageDetails\<close>, which files each package under its own name (\<open>keyed_by_name\<close>).
\<close>

definition deps_resolve :: "registry \<Rightarrow> bool" where
  "deps_resolve packages \<longleftrightarrow>
     (\<forall>(k, p)\<in>set packages. \<forall>d\<in>set (localDeps p). d \<in> set (Object_keys packages))"

definition depends_on :: "registry \<Rightarrow> (string \<times> string) set" where
  "depends_on packages = {(k, d). \<exists>p. (k, p) \<in> set packages \<and> d \<in> set (localDeps p)}"


definition keyed_by_name :: "registry \<Rightarrow> bool" where
  "keyed_by_name packages \<longleftrightarrow> (\<forall>(k, p)\<in>set packages. name p = k)"

text \<open>
  For the retry engine: the invocations and the timeouts of a trace, and the operation
  scripted by its invocation count, whose state is the number of invocations made so far and
  whose k-th invocation settles as \<open>outcome (k - 1)\<close>.
\<close>

fun invocations :: "'e retry_event list \<Rightarrow> (retry_args \<times> ('e + unit)) list" where
  "invocations [] = []"
| "invocations (Invoked a r # evs) = (a, r) # invocations evs"
| "invocations (SetTimeout d # evs) = invocations evs"

fun timeouts :: "'e retry_event list \<Rightarrow> int list" where
  "timeouts [] = []"
| "timeouts (Invoked a r # evs) = timeouts evs"
| "timeouts (SetTimeout d # evs) = d # timeouts evs"

definition scripted :: "(nat \<Rightarrow> 'e + unit) \<Rightarrow> ('e, nat) operation" where
  "scripted outcome args calls = (outcome calls, Suc calls)"




text \<open>
  For the copy: what \<^verbatim>\<open>stat\<close> sees at a path (a file with its contents, or a directory); the
  well-formed trees, in which the names of a directory are distinct; two paths are
  \<open>separate\<close> when neither is a prefix of the other; and a destination \<open>accepts\<close> a source
  tree when what is already there has the kind of the source at each of its entries
  (\<open>compatible\<close>) and, where the destination is absent, it can be created: for a file its
  parent directory exists, for a directory no regular file lies on the path.
\<close>

datatype entry = FileEntry string | DirectoryEntry

fun entry_of :: "node \<Rightarrow> entry" where
  "entry_of (File b) = FileEntry b"
| "entry_of (Dir es) = DirectoryEntry"

definition stat :: "node \<Rightarrow> path \<Rightarrow> entry option" where
  "stat fs p = map_option entry_of (fs_lookup fs p)"



definition separate :: "path \<Rightarrow> path \<Rightarrow> bool" where
  "separate p q \<longleftrightarrow> \<not> prefix p q \<and> \<not> prefix q p"


section \<open>Invariants of the proofs\<close>

text \<open>
  \<open>extends\<close>: a call of \<open>visit\<close> adds the keys \<open>ks\<close>, new and distinct, to the visited set and
  their packages, in this order, to the output, and every dependency of an added key has
  been visited. \<open>in_progress\<close>: the names visited and not yet in the output. \<open>deps_first\<close>:
  the direct dependencies of each package of the output stand before it. \<open>args_at\<close>: the
  argument object at a value of the counter. \<open>status_outcome\<close>: the outcome of the
  availability check for the k-th status of a list. \<open>touches_only\<close>, \<open>copied\<close>, \<open>copies_tree\<close>
  and \<open>loop_done\<close>: what a change at a path leaves untouched, and what the copy of a tree,
  and of the entries of a directory, establish.
\<close>

definition extends :: "registry \<Rightarrow> sort_state \<Rightarrow> sort_state \<Rightarrow> string list \<Rightarrow> bool" where
  "extends packages s s' ks \<longleftrightarrow>
     distinct ks \<and> set ks \<inter> visited s = {} \<and> set ks \<subseteq> set (Object_keys packages) \<and>
     visited s' = visited s \<union> set ks \<and>
     sorted s' = sorted s @ map (\<lambda>k. the (map_of packages k)) ks \<and>
     (\<forall>k\<in>set ks. \<forall>pd. map_of packages k = Some pd \<longrightarrow> set (localDeps pd) \<subseteq> visited s')"

definition in_progress :: "sort_state \<Rightarrow> string set" where
  "in_progress s = visited s - name ` set (sorted s)"

definition deps_first :: "PackageDetails list \<Rightarrow> bool" where
  "deps_first ps \<longleftrightarrow> (\<forall>i<length ps. set (localDeps (ps ! i)) \<subseteq> name ` set (take i ps))"

definition args_at :: "retry_opts \<Rightarrow> int \<Rightarrow> retry_args" where
  "args_at opts attempts =
     \<lparr>attempt = attempts, remaining = numAttempts opts - attempts, total = numAttempts opts\<rparr>"






section \<open>Example inputs\<close>

text \<open>
  The inputs at which the theorems are instantiated.
\<close>

definition example_package :: "string \<Rightarrow> string list \<Rightarrow> PackageDetails" where
  "example_package n ds = \<lparr>name = n, dir = ''packages/'' @ n, localDeps = ds, version = ''2.0.0''\<rparr>"

definition registry_cycle :: registry where
  "registry_cycle = [(''A'', example_package ''A'' [''B'']), (''B'', example_package ''B'' [''A''])]"

definition registry_chain :: registry where
  "registry_chain = [(''A'', example_package ''A'' [''B'']), (''B'', example_package ''B'' [''C'']),
     (''C'', example_package ''C'' [])]"


definition chain_rank :: "string \<Rightarrow> nat" where
  "chain_rank n = (if n = ''A'' then 0 else if n = ''B'' then 1 else 2)"

definition succeeds_on_call :: "nat \<Rightarrow> nat \<Rightarrow> error + unit" where
  "succeeds_on_call N calls = (if Suc calls = N then Inr () else Inl (Error ''not yet''))"

definition editor_package :: PackageDetails where
  "editor_package = example_package ''@tldraw/editor'' []"





definition env_already_published :: env where
  "env_already_published =
     \<lparr>respond = (\<lambda>w a. \<lparr>failure = Some (Error ''exit code 1''),
                          output_lines = [StdoutLine ''publishing'',
                             StderrLine ''E403 You cannot publish over the previously published versions: 2.0.0''],
                          status = 0\<rparr>),
      prerelease = (\<lambda>v. None)\<rparr>"





section \<open>Proofs\<close>

subsection \<open>Topological sort\<close>

lemma extends_refl: "extends packages s s []"
  by (simp add: extends_def)

lemma extends_trans:
  assumes "extends packages s s1 ks1" and "extends packages s1 s2 ks2"
  shows "extends packages s s2 (ks1 @ ks2)"
proof -
  from assms have d: "distinct ks1" "distinct ks2"
    and i: "set ks1 \<inter> visited s = {}" "set ks2 \<inter> visited s1 = {}"
    and k: "set ks1 \<subseteq> set (Object_keys packages)" "set ks2 \<subseteq> set (Object_keys packages)"
    and v: "visited s1 = visited s \<union> set ks1" "visited s2 = visited s1 \<union> set ks2"
    and o: "sorted s1 = sorted s @ map (\<lambda>k. the (map_of packages k)) ks1"
           "sorted s2 = sorted s1 @ map (\<lambda>k. the (map_of packages k)) ks2"
    and c: "\<forall>k\<in>set ks1. \<forall>pd. map_of packages k = Some pd \<longrightarrow> set (localDeps pd) \<subseteq> visited s1"
           "\<forall>k\<in>set ks2. \<forall>pd. map_of packages k = Some pd \<longrightarrow> set (localDeps pd) \<subseteq> visited s2"
    unfolding extends_def by simp_all blast+
  have "distinct (ks1 @ ks2)" using d i(2) v(1) by auto
  moreover have "set (ks1 @ ks2) \<inter> visited s = {}" using i v(1) by auto
  moreover have "set (ks1 @ ks2) \<subseteq> set (Object_keys packages)" using k by simp
  moreover have "visited s2 = visited s \<union> set (ks1 @ ks2)" using v by auto
  moreover have "sorted s2 = sorted s @ map (\<lambda>k. the (map_of packages k)) (ks1 @ ks2)"
    using o by simp
  moreover have "\<forall>k\<in>set (ks1 @ ks2). \<forall>pd. map_of packages k = Some pd \<longrightarrow>
      set (localDeps pd) \<subseteq> visited s2"
    using c v(2) by auto
  ultimately show ?thesis unfolding extends_def by blast
qed

lemma extends_push:
  assumes n: "packageName \<notin> visited s"
    and pd: "map_of packages packageName = Some packageDetails"
    and ext: "extends packages (s\<lparr>visited := insert packageName (visited s)\<rparr>) s2 ks"
    and deps: "set (localDeps packageDetails) \<subseteq> visited s2"
  shows "extends packages s (s2\<lparr>sorted := sorted s2 @ [packageDetails]\<rparr>) (ks @ [packageName])"
proof -
  have key: "packageName \<in> set (Object_keys packages)"
    using map_of_SomeD[OF pd] by (rule in_keysI)
  from ext have d: "distinct ks"
    and i: "set ks \<inter> insert packageName (visited s) = {}"
    and k: "set ks \<subseteq> set (Object_keys packages)"
    and v: "visited s2 = insert packageName (visited s) \<union> set ks"
    and o: "sorted s2 = sorted s @ map (\<lambda>k. the (map_of packages k)) ks"
    and c: "\<forall>k\<in>set ks. \<forall>pd. map_of packages k = Some pd \<longrightarrow> set (localDeps pd) \<subseteq> visited s2"
    unfolding extends_def by simp_all blast+
  let ?s' = "s2\<lparr>sorted := sorted s2 @ [packageDetails]\<rparr>"
  have "distinct (ks @ [packageName])" using d i by auto
  moreover have "set (ks @ [packageName]) \<inter> visited s = {}" using i n by auto
  moreover have "set (ks @ [packageName]) \<subseteq> set (Object_keys packages)" using k key by simp
  moreover have "visited ?s' = visited s \<union> set (ks @ [packageName])" using v by auto
  moreover have "sorted ?s' = sorted s @ map (\<lambda>k. the (map_of packages k)) (ks @ [packageName])"
    using o pd by simp
  moreover have "\<forall>k\<in>set (ks @ [packageName]). \<forall>pd. map_of packages k = Some pd \<longrightarrow>
      set (localDeps pd) \<subseteq> visited ?s'"
    using c deps pd by auto
  ultimately show ?thesis unfolding extends_def by blast
qed

lemma visit_extends:
  "visit packages packageName path s = Inr s' \<Longrightarrow>
     \<exists>ks. extends packages s s' ks \<and> packageName \<in> visited s'"
  "visit_each packages path deps s = Inr s'' \<Longrightarrow>
     \<exists>ks. extends packages s s'' ks \<and> set deps \<subseteq> visited s''"
proof (induction packages packageName path s and packages path deps s arbitrary: s' and s''
    rule: visit_visit_each.induct)
  case (1 packages packageName path s)
  show ?case
  proof (cases "packageName \<in> visited s")
    case True
    with 1(2) have "s' = s" by simp
    with True extends_refl show ?thesis by blast
  next
    case False
    let ?s1 = "s\<lparr>visited := insert packageName (visited s)\<rparr>"
    from False 1(2) obtain pd s2 where
      pd: "map_of packages packageName = Some pd" and
      s2: "visit_each packages path (localDeps pd) ?s1 = Inr s2" and
      s': "s' = s2\<lparr>sorted := sorted s2 @ [pd]\<rparr>"
      by (auto simp: Let_def split: option.splits sum.splits)
    from 1(1)[OF False refl pd s2] obtain ks where
      ext: "extends packages ?s1 s2 ks" and deps: "set (localDeps pd) \<subseteq> visited s2"
      by blast
    have "extends packages s s' (ks @ [packageName])"
      unfolding s' by (rule extends_push[OF False pd ext deps])
    moreover from this have "packageName \<in> visited s'"
      by (simp add: extends_def)
    ultimately show ?thesis by blast
  qed
next
  case (2 packages path s)
  then show ?case using extends_refl by auto
next
  case (3 packages path dep deps s)
  from 3(3) obtain b where
    b: "visit packages dep (path @ [dep]) s = Inr b" and
    r: "visit_each packages path deps b = Inr s''"
    by (auto split: sum.splits)
  from 3(1)[OF b] obtain ks1 where e1: "extends packages s b ks1" and d: "dep \<in> visited b"
    by blast
  from 3(2)[OF b r] obtain ks2 where e2: "extends packages b s'' ks2"
    and ds: "set deps \<subseteq> visited s''"
    by blast
  from e2 d have "dep \<in> visited s''" by (simp add: extends_def)
  with extends_trans[OF e1 e2] ds show ?case by auto
qed

lemma key_lookup:
  "k \<in> set (Object_keys packages) \<Longrightarrow> \<exists>p. map_of packages k = Some p \<and> (k, p) \<in> set packages"
proof -
  assume "k \<in> set (Object_keys packages)"
  then have "map_of packages k \<noteq> None"
    by (simp add: Object_keys_def map_of_eq_None_iff)
  then obtain p where "map_of packages k = Some p" by blast
  then show ?thesis using map_of_SomeD by fastforce
qed

lemma visit_succeeds:
  "deps_resolve packages \<Longrightarrow> packageName \<in> set (Object_keys packages) \<Longrightarrow>
     \<exists>s'. visit packages packageName path s = Inr s'"
  "deps_resolve packages \<Longrightarrow> set deps \<subseteq> set (Object_keys packages) \<Longrightarrow>
     \<exists>s'. visit_each packages path deps s = Inr s'"
proof (induction packages packageName path s and packages path deps s
    rule: visit_visit_each.induct)
  case (1 packages packageName path s)
  show ?case
  proof (cases "packageName \<in> visited s")
    case True
    then show ?thesis by simp
  next
    case False
    from key_lookup[OF 1(3)] obtain pd where
      pd: "map_of packages packageName = Some pd" and mem: "(packageName, pd) \<in> set packages"
      by blast
    from mem 1(2) have "set (localDeps pd) \<subseteq> set (Object_keys packages)"
      unfolding deps_resolve_def by blast
    from 1(1)[OF False refl pd 1(2) this] obtain s2 where
      "visit_each packages path (localDeps pd) (s\<lparr>visited := insert packageName (visited s)\<rparr>) = Inr s2"
      by blast
    with False pd show ?thesis by (simp add: Let_def)
  qed
next
  case (2 packages path s)
  then show ?case by simp
next
  case (3 packages path dep deps s)
  from 3(4) have d: "dep \<in> set (Object_keys packages)"
    and ds: "set deps \<subseteq> set (Object_keys packages)" by simp_all
  from 3(1)[OF 3(3) d] obtain b where b: "visit packages dep (path @ [dep]) s = Inr b"
    by blast
  from 3(2)[OF b 3(3) ds] obtain s' where "visit_each packages path deps b = Inr s'"
    by blast
  with b show ?case by simp
qed

lemma sorted_all_keys:
  assumes run: "visit_each packages [] (Object_keys packages) \<lparr>sorted = [], visited = {}\<rparr> = Inr s'"
  shows "\<exists>ks. distinct ks \<and> set ks = set (Object_keys packages) \<and>
           sorted s' = map (\<lambda>k. the (map_of packages k)) ks \<and>
           (\<forall>k\<in>set ks. \<forall>pd. map_of packages k = Some pd \<longrightarrow>
               set (localDeps pd) \<subseteq> set ks)"
proof -
  from visit_extends(2)[OF run] obtain ks where
    ext: "extends packages \<lparr>sorted = [], visited = {}\<rparr> s' ks"
    and all: "set (Object_keys packages) \<subseteq> visited s'"
    by blast
  from ext have d: "distinct ks"
    and k: "set ks \<subseteq> set (Object_keys packages)"
    and v: "visited s' = set ks"
    and o: "sorted s' = map (\<lambda>k. the (map_of packages k)) ks"
    and c: "\<forall>k\<in>set ks. \<forall>pd. map_of packages k = Some pd \<longrightarrow> set (localDeps pd) \<subseteq> visited s'"
    unfolding extends_def by simp_all blast+
  from all k v have "set ks = set (Object_keys packages)" by blast
  with d o c v show ?thesis by blast
qed

lemma lookup_keys:
  assumes "distinct (Object_keys packages)"
  shows "map (\<lambda>k. the (map_of packages k)) (Object_keys packages) = map snd packages"
proof -
  have "\<And>x. x \<in> set packages \<Longrightarrow> the (map_of packages (fst x)) = snd x"
  proof -
    fix x assume "x \<in> set packages"
    then have "(fst x, snd x) \<in> set packages" by simp
    with assms have "map_of packages (fst x) = Some (snd x)"
      unfolding Object_keys_def by (rule map_of_is_SomeI)
    then show "the (map_of packages (fst x)) = snd x" by simp
  qed
  then show ?thesis by (simp add: Object_keys_def)
qed

text \<open>
  C9. For a registry whose \<open>localDeps\<close> names all resolve, \<open>topologicalSortPackages\<close>
  returns (the model is a total function, its termination proved above, and the result is
  a value, not an error) and the returned sequence holds every package of the registry
  exactly once: it is a permutation of the registry's values. Nothing is assumed about
  cycles, and a cycle is not reported: the witness is a registry where A and B depend on
  each other.
\<close>

theorem topologicalSortPackages_total:
  assumes "distinct (Object_keys packages)" and "deps_resolve packages"
  shows "\<exists>ps. topologicalSortPackages packages = Inr ps \<and> mset ps = mset (map snd packages)"
proof -
  from visit_succeeds(2)[OF assms(2) subset_refl] obtain s' where
    run: "visit_each packages [] (Object_keys packages) \<lparr>sorted = [], visited = {}\<rparr> = Inr s'"
    by blast
  from sorted_all_keys[OF run] obtain ks where
    d: "distinct ks" and k: "set ks = set (Object_keys packages)"
    and o: "sorted s' = map (\<lambda>k. the (map_of packages k)) ks"
    by blast
  from d k assms(1) have "mset ks = mset (Object_keys packages)"
    by (simp add: set_eq_iff_mset_eq_distinct)
  then have "mset (map (\<lambda>k. the (map_of packages k)) ks) =
      mset (map (\<lambda>k. the (map_of packages k)) (Object_keys packages))"
    by (metis mset_map)
  with o lookup_keys[OF assms(1)] have "mset (sorted s') = mset (map snd packages)"
    by simp
  with run show ?thesis by (simp add: topologicalSortPackages_def)
qed

theorem topologicalSortPackages_total_witness:
  "distinct (Object_keys registry_cycle) \<and> deps_resolve registry_cycle \<and>
   (\<exists>ps. topologicalSortPackages registry_cycle = Inr ps \<and>
      mset ps = mset (map snd registry_cycle))"
proof -
  have d: "distinct (Object_keys registry_cycle)"
    by (simp add: Object_keys_def registry_cycle_def)
  have r: "deps_resolve registry_cycle"
    by (simp add: deps_resolve_def Object_keys_def registry_cycle_def example_package_def)
  from topologicalSortPackages_total[OF d r] d r show ?thesis by blast
qed





lemma lookup_name:
  assumes "keyed_by_name packages" and "map_of packages k = Some p"
  shows "name p = k"
  using map_of_SomeD[OF assms(2)] assms(1) unfolding keyed_by_name_def by blast

lemma extends_names:
  assumes kn: "keyed_by_name packages" and ext: "extends packages s s' ks"
  shows "name ` set (sorted s') = name ` set (sorted s) \<union> set ks"
proof -
  from ext have k: "set ks \<subseteq> set (Object_keys packages)"
    and o: "sorted s' = sorted s @ map (\<lambda>k. the (map_of packages k)) ks"
    unfolding extends_def by simp_all
  have "\<And>x. x \<in> set ks \<Longrightarrow> name (the (map_of packages x)) = x"
  proof -
    fix x assume "x \<in> set ks"
    with k key_lookup obtain p where "map_of packages x = Some p" by blast
    with lookup_name[OF kn this] show "name (the (map_of packages x)) = x" by simp
  qed
  then have "map name (map (\<lambda>k. the (map_of packages k)) ks) = ks"
    by (simp add: map_idI)
  then have "name ` set (map (\<lambda>k. the (map_of packages k)) ks) = set ks"
    by (metis set_map)
  with o show ?thesis by (simp add: image_Un)
qed

lemma extends_in_progress:
  assumes kn: "keyed_by_name packages" and ext: "extends packages s s' ks"
  shows "in_progress s' = in_progress s"
proof -
  from ext have i: "set ks \<inter> visited s = {}" and v: "visited s' = visited s \<union> set ks"
    unfolding extends_def by simp_all
  from extends_names[OF kn ext] i v show ?thesis
    unfolding in_progress_def by blast
qed

lemma deps_first_snoc:
  assumes "deps_first ps" and "set (localDeps p) \<subseteq> name ` set ps"
  shows "deps_first (ps @ [p])"
  unfolding deps_first_def
proof (intro allI impI)
  fix i assume "i < length (ps @ [p])"
  then consider "i < length ps" | "i = length ps" by fastforce
  then show "set (localDeps ((ps @ [p]) ! i)) \<subseteq> name ` set (take i (ps @ [p]))"
  proof cases
    case 1
    with assms(1) show ?thesis by (simp add: deps_first_def nth_append)
  next
    case 2
    with assms(2) show ?thesis by simp
  qed
qed

lemma visit_deps_first:
  "visit packages packageName path s = Inr s' \<Longrightarrow> acyclic (depends_on packages) \<Longrightarrow>
     keyed_by_name packages \<Longrightarrow>
     (\<forall>a\<in>in_progress s. (a, packageName) \<in> (depends_on packages)\<^sup>+) \<Longrightarrow>
     deps_first (sorted s) \<Longrightarrow> deps_first (sorted s')"
  "visit_each packages path deps s = Inr s'' \<Longrightarrow> acyclic (depends_on packages) \<Longrightarrow>
     keyed_by_name packages \<Longrightarrow>
     (\<forall>a\<in>in_progress s. \<forall>d\<in>set deps. (a, d) \<in> (depends_on packages)\<^sup>+) \<Longrightarrow>
     deps_first (sorted s) \<Longrightarrow> deps_first (sorted s'')"
proof (induction packages packageName path s and packages path deps s arbitrary: s' and s''
    rule: visit_visit_each.induct)
  case (1 packages packageName path s)
  note ac = 1(3) and kn = 1(4) and anc = 1(5) and df = 1(6)
  show ?case
  proof (cases "packageName \<in> visited s")
    case True
    with 1(2) df show ?thesis by simp
  next
    case False
    let ?s1 = "s\<lparr>visited := insert packageName (visited s)\<rparr>"
    let ?R = "depends_on packages"
    from False 1(2) obtain pd s2 where
      pd: "map_of packages packageName = Some pd" and
      s2: "visit_each packages path (localDeps pd) ?s1 = Inr s2" and
      s': "s' = s2\<lparr>sorted := sorted s2 @ [pd]\<rparr>"
      by (auto simp: Let_def split: option.splits sum.splits)
    have direct: "\<And>d. d \<in> set (localDeps pd) \<Longrightarrow> (packageName, d) \<in> ?R"
      using map_of_SomeD[OF pd] unfolding depends_on_def by blast
    have prog1: "in_progress ?s1 \<subseteq> insert packageName (in_progress s)"
      unfolding in_progress_def by auto
    have anc1: "\<forall>a\<in>in_progress ?s1. \<forall>d\<in>set (localDeps pd). (a, d) \<in> ?R\<^sup>+"
    proof (intro ballI)
      fix a d assume a: "a \<in> in_progress ?s1" and d: "d \<in> set (localDeps pd)"
      show "(a, d) \<in> ?R\<^sup>+"
      proof (cases "a = packageName")
        case True
        with direct[OF d] show ?thesis by blast
      next
        case False
        with a prog1 have "a \<in> in_progress s" by blast
        with anc have "(a, packageName) \<in> ?R\<^sup>+" by blast
        then show ?thesis using direct[OF d] by (rule trancl.trancl_into_trancl)
      qed
    qed
    have df1: "deps_first (sorted ?s1)" using df by simp
    from 1(1)[OF False refl pd s2 ac kn anc1 df1] have df2: "deps_first (sorted s2)" .
    from visit_extends(2)[OF s2] obtain ks where
      ext: "extends packages ?s1 s2 ks" and vis: "set (localDeps pd) \<subseteq> visited s2"
      by blast
    have prog2: "in_progress s2 = in_progress ?s1"
      by (rule extends_in_progress[OF kn ext])
    have "set (localDeps pd) \<subseteq> name ` set (sorted s2)"
    proof
      fix d assume d: "d \<in> set (localDeps pd)"
      have "d \<notin> in_progress s2"
      proof
        assume "d \<in> in_progress s2"
        with prog2 prog1 have "d = packageName \<or> d \<in> in_progress s" by blast
        then have "(d, packageName) \<in> ?R\<^sup>*"
          using anc by auto
        then have "(d, d) \<in> ?R\<^sup>+" using direct[OF d] by (rule rtrancl_into_trancl1)
        with ac show False unfolding acyclic_def by blast
      qed
      with vis d show "d \<in> name ` set (sorted s2)"
        unfolding in_progress_def by blast
    qed
    from deps_first_snoc[OF df2 this] show ?thesis unfolding s' by simp
  qed
next
  case (2 packages path s)
  then show ?case by simp
next
  case (3 packages path dep deps s)
  note ac = 3(4) and kn = 3(5) and anc = 3(6) and df = 3(7)
  from 3(3) obtain b where
    b: "visit packages dep (path @ [dep]) s = Inr b" and
    r: "visit_each packages path deps b = Inr s''"
    by (auto split: sum.splits)
  from anc have anc_dep: "\<forall>a\<in>in_progress s. (a, dep) \<in> (depends_on packages)\<^sup>+"
    by simp
  from 3(1)[OF b ac kn anc_dep df] have dfb: "deps_first (sorted b)" .
  from visit_extends(1)[OF b] obtain ks where ext: "extends packages s b ks"
    by blast
  from extends_in_progress[OF kn ext] anc
  have ancb: "\<forall>a\<in>in_progress b. \<forall>d\<in>set deps. (a, d) \<in> (depends_on packages)\<^sup>+"
    by simp
  from 3(2)[OF b r ac kn ancb dfb] show ?case .
qed

lemma deps_first_transitive:
  assumes df: "deps_first ps"
    and own: "\<And>i d. i < length ps \<Longrightarrow> (name (ps ! i), d) \<in> R \<Longrightarrow> d \<in> set (localDeps (ps ! i))"
    and tr: "(x, d) \<in> R\<^sup>+"
  shows "\<forall>i<length ps. name (ps ! i) = x \<longrightarrow> (\<exists>j<i. name (ps ! j) = d)"
  using tr
proof (induction rule: trancl_induct)
  case (base y)
  show ?case
  proof (intro allI impI)
    fix i assume i: "i < length ps" and n: "name (ps ! i) = x"
    with base own have "y \<in> set (localDeps (ps ! i))" by blast
    with df i have "y \<in> name ` set (take i ps)" unfolding deps_first_def by blast
    then obtain j where "j < length (take i ps)" "name (take i ps ! j) = y"
      by (auto simp: in_set_conv_nth)
    then show "\<exists>j<i. name (ps ! j) = y" by auto
  qed
next
  case (step y z)
  show ?case
  proof (intro allI impI)
    fix i assume i: "i < length ps" and n: "name (ps ! i) = x"
    with step.IH obtain j where j: "j < i" "name (ps ! j) = y" by blast
    with i have jl: "j < length ps" by simp
    with step.hyps(2) j own have "z \<in> set (localDeps (ps ! j))" by blast
    with df jl have "z \<in> name ` set (take j ps)" unfolding deps_first_def by blast
    then obtain k where "k < length (take j ps)" "name (take j ps ! k) = z"
      by (auto simp: in_set_conv_nth)
    then have "k < j" "name (ps ! k) = z" by simp_all
    with j(1) have "k < i \<and> name (ps ! k) = z" by simp
    then show "\<exists>j<i. name (ps ! j) = z" by blast
  qed
qed

text \<open>
  C1. For a registry keyed by package name, with every \<open>localDeps\<close> name resolving and an
  acyclic dependency relation, \<open>topologicalSortPackages\<close> returns a sequence of all the
  registry's packages in which every direct or transitive dependency of a package stands
  at a strictly smaller index than the package.
\<close>

theorem topologicalSortPackages_dependencies_first:
  assumes d: "distinct (Object_keys packages)" and kn: "keyed_by_name packages"
    and r: "deps_resolve packages" and ac: "acyclic (depends_on packages)"
  shows "\<exists>ps. topologicalSortPackages packages = Inr ps \<and>
           set ps = snd ` set packages \<and>
           (\<forall>i<length ps. \<forall>d. (name (ps ! i), d) \<in> (depends_on packages)\<^sup>+ \<longrightarrow>
               (\<exists>j<i. name (ps ! j) = d))"
proof -
  let ?init = "\<lparr>sorted = [], visited = {}\<rparr>"
  from visit_succeeds(2)[OF r subset_refl] obtain s' where
    run: "visit_each packages [] (Object_keys packages) ?init = Inr s'"
    by blast
  from sorted_all_keys[OF run] obtain ks where
    k: "set ks = set (Object_keys packages)"
    and o: "sorted s' = map (\<lambda>k. the (map_of packages k)) ks"
    by blast
  have mem: "\<And>p. p \<in> set (sorted s') \<Longrightarrow> (name p, p) \<in> set packages"
  proof -
    fix p assume "p \<in> set (sorted s')"
    with o k obtain x where x: "x \<in> set (Object_keys packages)" "p = the (map_of packages x)"
      by auto
    from key_lookup[OF x(1)] obtain q where q: "map_of packages x = Some q" "(x, q) \<in> set packages"
      by blast
    with x lookup_name[OF kn q(1)] show "(name p, p) \<in> set packages" by simp
  qed
  have "set (sorted s') = snd ` set packages"
  proof
    show "set (sorted s') \<subseteq> snd ` set packages"
      using mem by force
  next
    show "snd ` set packages \<subseteq> set (sorted s')"
    proof
      fix p assume "p \<in> snd ` set packages"
      then obtain x where x: "(x, p) \<in> set packages" by auto
      with d have "map_of packages x = Some p"
        unfolding Object_keys_def by (rule map_of_is_SomeI)
      moreover from x have "x \<in> set ks" unfolding k by (rule in_keysI)
      ultimately show "p \<in> set (sorted s')" unfolding o by force
    qed
  qed
  moreover
  have df: "deps_first (sorted s')"
    by (rule visit_deps_first(2)[OF run ac kn]) (simp_all add: in_progress_def deps_first_def)
  have own: "\<And>i x. i < length (sorted s') \<Longrightarrow> (name (sorted s' ! i), x) \<in> depends_on packages \<Longrightarrow>
      x \<in> set (localDeps (sorted s' ! i))"
  proof -
    fix i x assume i: "i < length (sorted s')"
      and e: "(name (sorted s' ! i), x) \<in> depends_on packages"
    from e obtain p where p: "(name (sorted s' ! i), p) \<in> set packages" "x \<in> set (localDeps p)"
      unfolding depends_on_def by blast
    from i have "(name (sorted s' ! i), sorted s' ! i) \<in> set packages"
      by (intro mem) simp
    with p(1) d have "p = sorted s' ! i"
      unfolding Object_keys_def by (meson eq_key_imp_eq_value)
    with p(2) show "x \<in> set (localDeps (sorted s' ! i))" by simp
  qed
  have "\<forall>i<length (sorted s'). \<forall>x. (name (sorted s' ! i), x) \<in> (depends_on packages)\<^sup>+ \<longrightarrow>
               (\<exists>j<i. name (sorted s' ! j) = x)"
    using deps_first_transitive[OF df own] by blast
  ultimately show ?thesis using run by (simp add: topologicalSortPackages_def)
qed

lemma chain_edge_rank:
  assumes "(k, p) \<in> set registry_chain" and "d \<in> set (localDeps p)"
  shows "chain_rank k < chain_rank d"
proof -
  from assms(1) consider "k = ''A''" "p = example_package ''A'' [''B'']"
    | "k = ''B''" "p = example_package ''B'' [''C'']"
    | "k = ''C''" "p = example_package ''C'' []"
    unfolding registry_chain_def by fastforce
  then show ?thesis
  proof cases
    case 1
    with assms(2) show ?thesis by (simp add: example_package_def chain_rank_def)
  next
    case 2
    with assms(2) show ?thesis by (simp add: example_package_def chain_rank_def)
  next
    case 3
    with assms(2) show ?thesis by (simp add: example_package_def chain_rank_def)
  qed
qed

lemma acyclic_registry_chain: "acyclic (depends_on registry_chain)"
proof -
  have "depends_on registry_chain \<subseteq> measure chain_rank"
    unfolding depends_on_def using chain_edge_rank by auto
  from wf_subset[OF wf_measure this] show ?thesis by (rule wf_acyclic)
qed

theorem topologicalSortPackages_dependencies_first_witness:
  "distinct (Object_keys registry_chain) \<and> keyed_by_name registry_chain \<and>
   deps_resolve registry_chain \<and> acyclic (depends_on registry_chain) \<and>
   map name (projr (topologicalSortPackages registry_chain)) = [''C'', ''B'', ''A''] \<and>
   (\<exists>ps. topologicalSortPackages registry_chain = Inr ps \<and>
      set ps = snd ` set registry_chain \<and>
      (\<forall>i<length ps. \<forall>d. (name (ps ! i), d) \<in> (depends_on registry_chain)\<^sup>+ \<longrightarrow>
               (\<exists>j<i. name (ps ! j) = d)))"
proof -
  have d: "distinct (Object_keys registry_chain)"
    by (simp add: Object_keys_def registry_chain_def)
  have k: "keyed_by_name registry_chain"
    by (simp add: keyed_by_name_def registry_chain_def example_package_def)
  have r: "deps_resolve registry_chain"
    by (simp add: deps_resolve_def Object_keys_def registry_chain_def example_package_def)
  have v: "map name (projr (topologicalSortPackages registry_chain)) = [''C'', ''B'', ''A'']"
    by (simp add: topologicalSortPackages_def Object_keys_def registry_chain_def
        example_package_def)
  note t = topologicalSortPackages_dependencies_first[OF d k r acyclic_registry_chain]
  show ?thesis
    by (intro conjI d k r acyclic_registry_chain v t)
qed

subsection \<open>Retry engine\<close>

lemma retry_attempt_resolves:
  assumes "fn (args_at opts a) w = (Inr u, w')"
  shows "retry_attempt fn opts a w = (Inr u, w', [Invoked (args_at opts a) (Inr u)])"
  using assms by (simp add: retry_attempt.simps[of fn opts a w] args_at_def)

lemma retry_attempt_gives_up:
  assumes "fn (args_at opts a) w = (Inl err, w')" and "numAttempts opts \<le> a + 1"
  shows "retry_attempt fn opts a w = (Inl err, w', [Invoked (args_at opts a) (Inl err)])"
  using assms by (simp add: retry_attempt.simps[of fn opts a w] args_at_def)

lemma retry_attempt_again:
  assumes "fn (args_at opts a) w = (Inl err, w')" and "a + 1 < numAttempts opts"
    and "retry_attempt fn opts (a + 1) w' = (r, w'', evs)"
  shows "retry_attempt fn opts a w =
           (r, w'', Invoked (args_at opts a) (Inl err) # SetTimeout (delay opts) # evs)"
  using assms by (simp add: retry_attempt.simps[of fn opts a w] args_at_def)

lemma retry_attempt_cases:
  obtains (resolves) u w' where "fn (args_at opts a) w = (Inr u, w')"
      "retry_attempt fn opts a w = (Inr u, w', [Invoked (args_at opts a) (Inr u)])"
  | (gives_up) err w' where "fn (args_at opts a) w = (Inl err, w')" "numAttempts opts \<le> a + 1"
      "retry_attempt fn opts a w = (Inl err, w', [Invoked (args_at opts a) (Inl err)])"
  | (again) err w' r w'' evs where "fn (args_at opts a) w = (Inl err, w')"
      "a + 1 < numAttempts opts" "retry_attempt fn opts (a + 1) w' = (r, w'', evs)"
      "retry_attempt fn opts a w =
           (r, w'', Invoked (args_at opts a) (Inl err) # SetTimeout (delay opts) # evs)"
proof (cases "fn (args_at opts a) w")
  case (Pair x w')
  show ?thesis
  proof (cases x)
    case (Inr u)
    with Pair have f: "fn (args_at opts a) w = (Inr u, w')" by simp
    from resolves[OF f retry_attempt_resolves[of fn opts a w, OF f]] show ?thesis .
  next
    case (Inl err)
    show ?thesis
    proof (cases "numAttempts opts \<le> a + 1")
      case True
      from Pair Inl have f: "fn (args_at opts a) w = (Inl err, w')" by simp
      from gives_up[OF f True retry_attempt_gives_up[of fn opts a w, OF f True]] show ?thesis .
    next
      case False
      obtain r w'' evs where "retry_attempt fn opts (a + 1) w' = (r, w'', evs)"
        by (cases "retry_attempt fn opts (a + 1) w'") auto
      moreover from False have lt: "a + 1 < numAttempts opts" by simp
      moreover from Pair Inl have f: "fn (args_at opts a) w = (Inl err, w')" by simp
      ultimately show ?thesis
        using again retry_attempt_again[of fn opts a w err w' r w'' evs] by blast
    qed
  qed
qed

lemma retry_attempt_induct [case_names step]:
  assumes step: "\<And>a w. (\<And>err w'. fn (args_at opts a) w = (Inl err, w') \<Longrightarrow>
                    a + 1 < numAttempts opts \<Longrightarrow> P (a + 1) w') \<Longrightarrow> P a w"
  shows "P a w"
proof (induction "nat (numAttempts opts - a)" arbitrary: a w)
  case 0
  show ?case
  proof (rule step)
    fix err w'
    assume "a + 1 < numAttempts opts"
    with 0 show "P (a + 1) w'" by simp
  qed
next
  case (Suc n)
  show ?case
  proof (rule step)
    fix err w'
    assume "a + 1 < numAttempts opts"
    with Suc(2) have "n = nat (numAttempts opts - (a + 1))" by simp
    then show "P (a + 1) w'" by (rule Suc(1))
  qed
qed

lemma retry_attempt_invocations:
  "retry_attempt fn opts a w = (r, w', evs) \<Longrightarrow>
     invocations evs \<noteq> [] \<and> snd (last (invocations evs)) = r \<and>
     (\<forall>k<length (invocations evs).
        fst (invocations evs ! k) = args_at opts (a + int k) \<and>
        (Suc k < length (invocations evs) \<longrightarrow> isl (snd (invocations evs ! k))))"
proof (induction a w arbitrary: r w' evs rule: retry_attempt_induct[where fn = fn and opts = opts])
  case (step a w)
  show ?case
  proof (cases rule: retry_attempt_cases[of fn opts a w])
    case (resolves u w1)
    with step(2) show ?thesis by auto
  next
    case (gives_up err w1)
    with step(2) show ?thesis by auto
  next
    case (again err w1 r1 w2 evs1)
    have "invocations evs1 \<noteq> [] \<and> snd (last (invocations evs1)) = r1 \<and>
     (\<forall>k<length (invocations evs1).
        fst (invocations evs1 ! k) = args_at opts (a + 1 + int k) \<and>
        (Suc k < length (invocations evs1) \<longrightarrow> isl (snd (invocations evs1 ! k))))"
      by (rule step(1)[OF again(1,2,3)])
    then have ne: "invocations evs1 \<noteq> []" and la: "snd (last (invocations evs1)) = r1"
      and ih: "\<And>k. k < length (invocations evs1) \<Longrightarrow>
        fst (invocations evs1 ! k) = args_at opts (a + 1 + int k) \<and>
        (Suc k < length (invocations evs1) \<longrightarrow> isl (snd (invocations evs1 ! k)))"
      by blast+
    from again(4) step(2) have evs: "evs = Invoked (args_at opts a) (Inl err) # SetTimeout (delay opts) # evs1"
      and r: "r = r1" by simp_all
    have inv: "invocations evs = (args_at opts a, Inl err) # invocations evs1"
      unfolding evs by simp
    show ?thesis
    proof (intro conjI allI impI)
      show "invocations evs \<noteq> []" unfolding inv by simp
      show "snd (last (invocations evs)) = r" unfolding inv using ne la r by simp
    next
      fix k assume k: "k < length (invocations evs)"
      show "fst (invocations evs ! k) = args_at opts (a + int k)"
      proof (cases k)
        case 0
        then show ?thesis unfolding inv by simp
      next
        case (Suc j)
        with k have "j < length (invocations evs1)" unfolding inv by simp
        from ih[OF this] Suc show ?thesis unfolding inv by (simp add: add.assoc)
      qed
    next
      fix k assume k: "k < length (invocations evs)" and sk: "Suc k < length (invocations evs)"
      show "isl (snd (invocations evs ! k))"
      proof (cases k)
        case 0
        then show ?thesis unfolding inv by simp
      next
        case (Suc j)
        with k sk have "j < length (invocations evs1)" "Suc j < length (invocations evs1)"
          unfolding inv by simp_all
        with ih Suc show ?thesis unfolding inv by simp
      qed
    qed
  qed
qed

text \<open>
  C7. In any run of \<open>retry\<close>, the k-th invocation of the operation (k counted from 1)
  receives \<open>attempt = k - 1\<close>, \<open>remaining = numAttempts - (k - 1)\<close> and
  \<open>total = numAttempts\<close>; every invocation before it was rejected, so \<open>attempt\<close> counts the
  failures so far, and the first invocation receives \<open>attempt = 0\<close>. This holds for every
  value of \<open>numAttempts\<close>, in particular for \<open>numAttempts \<ge> 1\<close>.
\<close>

theorem retry_operation_arguments:
  assumes "retry fn opts w = (r, w', evs)" and "1 \<le> k" and "k \<le> length (invocations evs)"
  shows "fst (invocations evs ! (k - 1)) =
           \<lparr>attempt = int k - 1, remaining = numAttempts opts - (int k - 1),
             total = numAttempts opts\<rparr> \<and>
         (\<forall>j<k - 1. isl (snd (invocations evs ! j))) \<and>
         attempt (fst (invocations evs ! 0)) = 0"
proof -
  from assms(1) have run: "retry_attempt fn opts 0 w = (r, w', evs)"
    by (simp add: retry_def)
  note inv = retry_attempt_invocations[OF run]
  from assms(2,3) have k1: "k - 1 < length (invocations evs)" by simp
  with inv have "fst (invocations evs ! (k - 1)) = args_at opts (0 + int (k - 1))" by blast
  moreover from assms(2) have "int (k - 1) = int k - 1" by simp
  ultimately have a: "fst (invocations evs ! (k - 1)) =
           \<lparr>attempt = int k - 1, remaining = numAttempts opts - (int k - 1),
             total = numAttempts opts\<rparr>"
    by (simp add: args_at_def)
  have b: "\<forall>j<k - 1. isl (snd (invocations evs ! j))"
  proof (intro allI impI)
    fix j assume "j < k - 1"
    with k1 have "j < length (invocations evs)" "Suc j < length (invocations evs)" by simp_all
    with inv show "isl (snd (invocations evs ! j))" by blast
  qed
  from inv have "0 < length (invocations evs)" by simp
  with inv have "fst (invocations evs ! 0) = args_at opts (0 + int 0)" by blast
  then have c: "attempt (fst (invocations evs ! 0)) = 0" by (simp add: args_at_def)
  from a b c show ?thesis by blast
qed

text \<open>
  C10. For every value of \<open>numAttempts\<close>, zero and negative included, the trace of \<open>retry\<close>
  starts with an invocation of the operation, made with \<open>attempt = 0\<close> before any
  comparison with \<open>numAttempts\<close>. When \<open>numAttempts \<le> 0\<close> and that invocation is rejected,
  \<open>retry\<close> rejects with the same error after this single invocation, and no timeout is
  set.
\<close>

theorem retry_invokes_at_least_once:
  fixes fn :: "('e, 'w) operation" and opts :: retry_opts
  defines "first \<equiv> \<lparr>attempt = 0, remaining = numAttempts opts, total = numAttempts opts\<rparr>"
  shows "(\<exists>rest. snd (snd (retry fn opts w)) = Invoked first (fst (fn first w)) # rest) \<and>
         (numAttempts opts \<le> 0 \<and> fst (fn first w) = Inl err \<longrightarrow>
            retry fn opts w = (Inl err, snd (fn first w), [Invoked first (Inl err)]) \<and>
            timeouts (snd (snd (retry fn opts w))) = [])"
proof -
  have first: "args_at opts 0 = first" by (simp add: args_at_def first_def)
  have a: "\<exists>rest. snd (snd (retry fn opts w)) = Invoked first (fst (fn first w)) # rest"
    by (cases rule: retry_attempt_cases[of fn opts 0 w]) (simp_all add: retry_def first)
  have b: "retry fn opts w = (Inl err, snd (fn first w), [Invoked first (Inl err)]) \<and>
            timeouts (snd (snd (retry fn opts w))) = []"
    if "numAttempts opts \<le> 0" and "fst (fn first w) = Inl err"
  proof -
    from that(2) have "fn (args_at opts 0) w = (Inl err, snd (fn first w))"
      unfolding first by (metis prod.collapse)
    moreover from that(1) have "numAttempts opts \<le> 0 + 1" by simp
    ultimately have "retry_attempt fn opts 0 w =
        (Inl err, snd (fn first w), [Invoked (args_at opts 0) (Inl err)])"
      by (rule retry_attempt_gives_up)
    then show ?thesis by (simp add: retry_def first)
  qed
  from a b show ?thesis by blast
qed

lemma scripted_resolves:
  assumes "Suc j \<le> N" and "int N \<le> numAttempts opts"
    and "\<forall>k. j \<le> k \<and> Suc k < N \<longrightarrow> isl (outcome k)" and "outcome (N - 1) = Inr ()"
  shows "\<exists>evs. retry_attempt (scripted outcome) opts (int j) j = (Inr (), N, evs) \<and>
           length (invocations evs) = N - j"
  using assms
proof (induction "N - Suc j" arbitrary: j)
  case 0
  then have j: "j = N - 1" "Suc j = N" by simp_all
  with 0(5) have "scripted outcome (args_at opts (int j)) j = (Inr (), N)"
    by (simp add: scripted_def)
  from retry_attempt_resolves[of "scripted outcome" opts "int j" j, OF this] j
  show ?case by simp
next
  case (Suc d)
  then have lt: "Suc j < N" by simp
  with Suc(5) have "isl (outcome j)" by simp
  then obtain err where "outcome j = Inl err" by (cases "outcome j") simp_all
  then have f: "scripted outcome (args_at opts (int j)) j = (Inl err, Suc j)"
    by (simp add: scripted_def)
  from lt Suc(4) have more: "int j + 1 < numAttempts opts" by simp
  from Suc(2) have "d = N - Suc (Suc j)" by simp
  from Suc(1)[OF this] lt Suc(4,5,6) obtain evs where
    evs: "retry_attempt (scripted outcome) opts (int (Suc j)) (Suc j) = (Inr (), N, evs)"
      "length (invocations evs) = N - Suc j"
    by auto
  from evs(1) have "retry_attempt (scripted outcome) opts (int j + 1) (Suc j) = (Inr (), N, evs)"
    by (simp add: add.commute)
  from retry_attempt_again[of "scripted outcome" opts "int j" j, OF f more this] evs(2) lt
  show ?case by simp
qed

lemma scripted_rejects:
  assumes "int (Suc j) \<le> numAttempts opts"
    and "\<forall>k. int k < numAttempts opts \<longrightarrow> isl (outcome k)"
  shows "\<exists>evs. retry_attempt (scripted outcome) opts (int j) j =
             (outcome (nat (numAttempts opts) - 1), nat (numAttempts opts), evs) \<and>
           length (invocations evs) = nat (numAttempts opts) - j"
  using assms
proof (induction "nat (numAttempts opts) - Suc j" arbitrary: j)
  case 0
  then have j: "Suc j = nat (numAttempts opts)" by simp
  from 0(2,3) have "isl (outcome j)" by simp
  then obtain err where err: "outcome j = Inl err" by (cases "outcome j") simp_all
  then have f: "scripted outcome (args_at opts (int j)) j = (Inl err, Suc j)"
    by (simp add: scripted_def)
  from j have "numAttempts opts \<le> int j + 1" by simp
  from retry_attempt_gives_up[of "scripted outcome" opts "int j" j, OF f this]
  have run: "retry_attempt (scripted outcome) opts (int j) j =
      (Inl err, Suc j, [Invoked (args_at opts (int j)) (Inl err)])" .
  from j have "nat (numAttempts opts) - 1 = j" "nat (numAttempts opts) - j = 1" by simp_all
  with run err j show ?case by simp
next
  case (Suc d)
  then have lt: "int j + 1 < numAttempts opts" by simp
  from Suc(3,4) have "isl (outcome j)" by simp
  then obtain err where "outcome j = Inl err" by (cases "outcome j") simp_all
  then have f: "scripted outcome (args_at opts (int j)) j = (Inl err, Suc j)"
    by (simp add: scripted_def)
  from Suc(2) have d: "d = nat (numAttempts opts) - Suc (Suc j)" by simp
  from lt have "int (Suc (Suc j)) \<le> numAttempts opts" by simp
  from Suc(1)[OF d this Suc(4)] obtain evs where
    evs: "retry_attempt (scripted outcome) opts (int (Suc j)) (Suc j) =
             (outcome (nat (numAttempts opts) - 1), nat (numAttempts opts), evs)"
      "length (invocations evs) = nat (numAttempts opts) - Suc j"
    by auto
  from evs(1) have "retry_attempt (scripted outcome) opts (int j + 1) (Suc j) =
      (outcome (nat (numAttempts opts) - 1), nat (numAttempts opts), evs)"
    by (simp add: add.commute)
  from retry_attempt_again[of "scripted outcome" opts "int j" j, OF f lt this] evs(2) lt
  show ?case by simp
qed

text \<open>
  C2. Let the operation be scripted by its invocation count: its k-th invocation settles
  as \<open>outcome (k - 1)\<close>, and its state is the number of invocations made. For
  \<open>numAttempts \<ge> 1\<close>: if the first \<open>N - 1\<close> invocations are rejected and the N-th is
  resolved, with \<open>N \<le> numAttempts\<close>, then \<open>retry\<close> resolves and the operation has been
  invoked exactly \<open>N\<close> times; if every invocation is rejected, the operation is invoked
  exactly \<open>numAttempts\<close> times and \<open>retry\<close> rejects with the error of the last invocation.
\<close>

theorem retry_invocation_count:
  assumes "1 \<le> numAttempts opts"
  shows "(1 \<le> N \<and> int N \<le> numAttempts opts \<and> (\<forall>k<N - 1. isl (outcome k)) \<and>
            outcome (N - 1) = Inr () \<longrightarrow>
            (\<exists>evs. retry (scripted outcome) opts 0 = (Inr (), N, evs) \<and>
               length (invocations evs) = N)) \<and>
         ((\<forall>k. int k < numAttempts opts \<longrightarrow> isl (outcome k)) \<longrightarrow>
            (\<exists>evs. retry (scripted outcome) opts 0 =
                 (outcome (nat (numAttempts opts) - 1), nat (numAttempts opts), evs) \<and>
               isl (outcome (nat (numAttempts opts) - 1)) \<and>
               length (invocations evs) = nat (numAttempts opts)))"
proof (intro conjI impI)
  assume h: "1 \<le> N \<and> int N \<le> numAttempts opts \<and> (\<forall>k<N - 1. isl (outcome k)) \<and>
            outcome (N - 1) = Inr ()"
  then have "Suc 0 \<le> N" "int N \<le> numAttempts opts"
    "\<forall>k. 0 \<le> k \<and> Suc k < N \<longrightarrow> isl (outcome k)" "outcome (N - 1) = Inr ()"
    by auto
  from scripted_resolves[OF this]
  show "\<exists>evs. retry (scripted outcome) opts 0 = (Inr (), N, evs) \<and> length (invocations evs) = N"
    by (simp add: retry_def)
next
  assume h: "\<forall>k. int k < numAttempts opts \<longrightarrow> isl (outcome k)"
  from assms have "int (Suc 0) \<le> numAttempts opts" by simp
  from scripted_rejects[OF this h] obtain evs where
    "retry_attempt (scripted outcome) opts (int 0) 0 =
             (outcome (nat (numAttempts opts) - 1), nat (numAttempts opts), evs)"
    "length (invocations evs) = nat (numAttempts opts) - 0"
    by blast
  moreover from assms h have "isl (outcome (nat (numAttempts opts) - 1))" by simp
  ultimately show "\<exists>evs. retry (scripted outcome) opts 0 =
                 (outcome (nat (numAttempts opts) - 1), nat (numAttempts opts), evs) \<and>
               isl (outcome (nat (numAttempts opts) - 1)) \<and>
               length (invocations evs) = nat (numAttempts opts)"
    by (simp add: retry_def)
qed

theorem retry_invocation_count_witness:
  "(1::int) \<le> numAttempts \<lparr>numAttempts = 5, delay = 100\<rparr> \<and>
   (\<exists>evs. retry (scripted (succeeds_on_call 3)) \<lparr>numAttempts = 5, delay = 100\<rparr> 0 = (Inr (), 3, evs) \<and>
      length (invocations evs) = 3) \<and>
   (\<exists>evs. retry (scripted (succeeds_on_call 0)) \<lparr>numAttempts = 5, delay = 100\<rparr> 0 =
      (Inl (Error ''not yet''), 5, evs) \<and> length (invocations evs) = 5)"
proof -
  let ?opts = "\<lparr>numAttempts = 5, delay = 100\<rparr>"
  have n: "1 \<le> numAttempts ?opts" by simp
  have a: "1 \<le> (3::nat) \<and> int 3 \<le> numAttempts ?opts \<and>
      (\<forall>k<3 - 1. isl (succeeds_on_call 3 k)) \<and> succeeds_on_call 3 (3 - 1) = Inr ()"
    by (simp add: succeeds_on_call_def)
  have b: "\<forall>k. int k < numAttempts ?opts \<longrightarrow> isl (succeeds_on_call 0 k)"
    by (simp add: succeeds_on_call_def)
  from retry_invocation_count[OF n, of 3 "succeeds_on_call 3"] a
  have "\<exists>evs. retry (scripted (succeeds_on_call 3)) ?opts 0 = (Inr (), 3, evs) \<and>
      length (invocations evs) = 3"
    by blast
  moreover
  from retry_invocation_count[OF n, of 0 "succeeds_on_call 0"] b
  have "\<exists>evs. retry (scripted (succeeds_on_call 0)) ?opts 0 =
      (Inl (Error ''not yet''), 5, evs) \<and> length (invocations evs) = 5"
    by (simp add: succeeds_on_call_def)
  ultimately show ?thesis using n by blast
qed

lemma retry_example:
  "retry (scripted (succeeds_on_call 3)) \<lparr>numAttempts = 5, delay = 100\<rparr> 0 =
     (Inr (), 3,
      [Invoked \<lparr>attempt = 0, remaining = 5, total = 5\<rparr> (Inl (Error ''not yet'')), SetTimeout 100,
       Invoked \<lparr>attempt = 1, remaining = 4, total = 5\<rparr> (Inl (Error ''not yet'')), SetTimeout 100,
       Invoked \<lparr>attempt = 2, remaining = 3, total = 5\<rparr> (Inr ())])"
  by (simp add: retry_def retry_attempt.simps scripted_def succeeds_on_call_def)

theorem retry_operation_arguments_witness:
  "fst (invocations (snd (snd (retry (scripted (succeeds_on_call 3))
        \<lparr>numAttempts = 5, delay = 100\<rparr> 0))) ! (3 - 1)) =
     \<lparr>attempt = 2, remaining = 3, total = 5\<rparr> \<and>
   attempt (fst (invocations (snd (snd (retry (scripted (succeeds_on_call 3))
        \<lparr>numAttempts = 5, delay = 100\<rparr> 0))) ! 0)) = 0"
proof -
  let ?opts = "\<lparr>numAttempts = 5, delay = 100\<rparr>"
  obtain evs where run: "retry (scripted (succeeds_on_call 3)) ?opts 0 = (Inr (), 3, evs)"
    and len: "length (invocations evs) = 3"
    unfolding retry_example by simp
  have k: "1 \<le> (3::nat)" "3 \<le> length (invocations evs)" using len by simp_all
  from retry_operation_arguments[OF run k] show ?thesis
    unfolding run by simp
qed

theorem retry_invokes_at_least_once_witness:
  "retry (scripted (succeeds_on_call 0)) \<lparr>numAttempts = - 2, delay = 100\<rparr> 0 =
     (Inl (Error ''not yet''), 1,
      [Invoked \<lparr>attempt = 0, remaining = - 2, total = - 2\<rparr> (Inl (Error ''not yet''))]) \<and>
   retry (scripted (succeeds_on_call 0)) \<lparr>numAttempts = 0, delay = 100\<rparr> 0 =
     (Inl (Error ''not yet''), 1,
      [Invoked \<lparr>attempt = 0, remaining = 0, total = 0\<rparr> (Inl (Error ''not yet''))])"
  using retry_invokes_at_least_once[where opts = "\<lparr>numAttempts = - 2, delay = 100\<rparr>"
      and fn = "scripted (succeeds_on_call 0)" and w = 0 and err = "Error ''not yet''"]
    retry_invokes_at_least_once[where opts = "\<lparr>numAttempts = 0, delay = 100\<rparr>"
      and fn = "scripted (succeeds_on_call 0)" and w = 0 and err = "Error ''not yet''"]
  by (simp add: scripted_def succeeds_on_call_def)

subsection \<open>Publish sequencer\<close>




text \<open>
  C5. If the registry-publish command fails and the captured output contains
  \<^verbatim>\<open>You cannot publish over the previously published versions\<close>, the publish step
  resolves with that single invocation: the retry trace holds one resolved invocation and
  no timeout, and the command has run once. The second conjunct says the same for the
  retry loop entered at any value of its counter, that is for a tolerated failure at any
  attempt.
\<close>

theorem publish_tolerates_republish:
  assumes "failure (respond env w (publish_command packageDetails prereleaseTag)) = Some e"
    and "string_includes
           (captured_output
              (output_lines (respond env w (publish_command packageDetails prereleaseTag))))
           ''You cannot publish over the previously published versions''"
  shows "publish_step env packageDetails prereleaseTag w =
           (Inr (), w @ [publish_command packageDetails prereleaseTag],
            [Invoked \<lparr>attempt = 0, remaining = 5, total = 5\<rparr> (Inr ())]) \<and>
         retry_attempt (publish_operation env packageDetails prereleaseTag)
             \<lparr>numAttempts = 5, delay = 10000\<rparr> attempts w =
           (Inr (), w @ [publish_command packageDetails prereleaseTag],
            [Invoked \<lparr>attempt = attempts, remaining = 5 - attempts, total = 5\<rparr> (Inr ())])"
proof -
  let ?opts = "\<lparr>numAttempts = 5, delay = 10000\<rparr>"
  let ?fn = "publish_operation env packageDetails prereleaseTag"
  have op: "?fn args w = (Inr (), w @ [publish_command packageDetails prereleaseTag])" for args
    using assms by (simp add: publish_operation_def perform_def)
  have "retry_attempt ?fn ?opts a w =
      (Inr (), w @ [publish_command packageDetails prereleaseTag],
       [Invoked (args_at ?opts a) (Inr ())])" for a
    by (rule retry_attempt_resolves[of ?fn ?opts a w, OF op])
  then show ?thesis
    by (simp add: publish_step_def retry_def args_at_def)
qed

lemma already_published_includes:
  "string_includes
     (captured_output
        [StdoutLine ''publishing'',
         StderrLine ''E403 You cannot publish over the previously published versions: 2.0.0''])
     ''You cannot publish over the previously published versions''"
  by (simp add: captured_output_def)

theorem publish_tolerates_republish_witness:
  "publish_step env_already_published editor_package ''latest'' [] =
     (Inr (), [publish_command editor_package ''latest''],
      [Invoked \<lparr>attempt = 0, remaining = 5, total = 5\<rparr> (Inr ())])"
proof -
  have f: "failure (respond env_already_published [] (publish_command editor_package ''latest'')) =
      Some (Error ''exit code 1'')"
    by (simp add: env_already_published_def)
  have i: "string_includes
           (captured_output
              (output_lines (respond env_already_published [] (publish_command editor_package ''latest''))))
           ''You cannot publish over the previously published versions''"
    using already_published_includes by (simp add: env_already_published_def)
  from publish_tolerates_republish[OF f i, of 0] show ?thesis by simp
qed














subsection \<open>Recursive copy\<close>




















lemma separate_sym: "separate p q \<Longrightarrow> separate q p"
  by (simp add: separate_def)




lemma stat_File: "stat (File b) p = (if p = [] then Some (FileEntry b) else None)"
  by (cases p) (simp_all add: stat_def)









lemma more_depth:
  "copyRecursiveSync k src dest fs = Some r \<Longrightarrow> k \<le> j \<Longrightarrow>
     copyRecursiveSync j src dest fs = Some r"
  "forEach_child k src dest ns fs = Some r \<Longrightarrow> k \<le> j \<Longrightarrow>
     forEach_child j src dest ns fs = Some r"
proof (induction k src dest fs and k src dest ns fs arbitrary: j r and j r
    rule: copyRecursiveSync_forEach_child.induct)
  case (1 src dest fs)
  then show ?case by simp
next
  case (2 depth src dest fs)
  from 2(3) obtain j' where j: "j = Suc j'" "depth \<le> j'" by (cases j) auto
  show ?case
  proof (cases "existsSync fs src \<and> isDirectory fs src")
    case False
    with 2(2) j show ?thesis by auto
  next
    case True
    show ?thesis
    proof (cases "mkdirSync dest fs")
      case (Inl e)
      with True 2(2) j show ?thesis by auto
    next
      case (Inr fs1)
      show ?thesis
      proof (cases "readdirSync fs1 src")
        case (Inl e)
        with True Inr 2(2) j show ?thesis by auto
      next
        case names: (Inr names)
        from True Inr names 2(2) have "forEach_child depth src dest names fs1 = Some r"
          by simp
        from 2(1)[OF refl refl _ Inr names this j(2)] True
        have "forEach_child j' src dest names fs1 = Some r" by simp
        with True Inr names j show ?thesis by simp
      qed
    qed
  qed
next
  case (3 depth src dest fs)
  then show ?case by simp
next
  case (4 depth src dest childItemName rest fs)
  from 4(3) obtain x where x: "copyRecursiveSync depth (src @ [childItemName]) (dest @ [childItemName]) fs = Some x"
    by (auto split: option.splits)
  from 4(1)[OF x 4(4)] have xj: "copyRecursiveSync j (src @ [childItemName]) (dest @ [childItemName]) fs = Some x" .
  show ?case
  proof (cases x)
    case (Inl e)
    with x 4(3) have "r = Inl e" by simp
    with xj Inl show ?thesis by simp
  next
    case (Inr fs')
    with x 4(3) have "forEach_child depth src dest rest fs' = Some r" by simp
    from 4(2)[OF x Inr this 4(4)] xj Inr show ?thesis by simp
  qed
qed










end
